theory Spec2Isabelle
  imports Complex_Main "HOL-Library.AList" "HOL-Library.Multiset"
begin

section \<open>Data model\<close>

text \<open>
  Values decoded by \<^verbatim>\<open>json.loads\<close>. Python's \<^verbatim>\<open>None\<close>, \<^verbatim>\<open>bool\<close>, \<^verbatim>\<open>int\<close>,
  \<^verbatim>\<open>float\<close>, \<^verbatim>\<open>str\<close>, \<^verbatim>\<open>list\<close> and \<^verbatim>\<open>dict\<close> (insertion ordered, hence an association
  list). A finite float is given by its exact value, a rational number; the floats that are
  no numbers (\<^verbatim>\<open>NaN\<close>, \<^verbatim>\<open>Infinity\<close>) are left out.
\<close>

datatype json =
    JNull
  | JBool bool
  | JInt int
  | JFloat rat
  | JStr string
  | JList "json list"
  | JDict "(string \<times> json) list"

text \<open>Python's truth value of a decoded JSON value, as tested by \<^verbatim>\<open>if x\<close> and \<^verbatim>\<open>not x\<close>.\<close>

fun truthy :: "json \<Rightarrow> bool" where
  "truthy JNull = False"
| "truthy (JBool b) = b"
| "truthy (JInt n) = (n \<noteq> 0)"
| "truthy (JFloat x) = (x \<noteq> 0)"
| "truthy (JStr s) = (s \<noteq> [])"
| "truthy (JList xs) = (xs \<noteq> [])"
| "truthy (JDict kvs) = (kvs \<noteq> [])"

text \<open>
  \<^verbatim>\<open>query.get('status')\<close>: \<^verbatim>\<open>None\<close> when the key is absent, and \<^verbatim>\<open>None\<close> is false.
\<close>

definition get_truthy :: "json option \<Rightarrow> bool" where
  "get_truthy v = (case v of None \<Rightarrow> False | Some j \<Rightarrow> truthy j)"

text \<open>
  An entry of the feed, of the shape \<^verbatim>\<open>{id, status?, fields, sources}\<close>: the keys that
  \<^verbatim>\<open>fetch_queries\<close> and \<^verbatim>\<open>filter_queries\<close> read. The keys \<^verbatim>\<open>id\<close> and \<^verbatim>\<open>fields\<close> are the
  fields \<open>qid\<close> and \<open>qfields\<close> (HOL and its record package use the plain names).
\<close>

record feed_query =
  qid :: string
  status :: "json option"
  qfields :: json
  sources :: "string list"

text \<open>
  A record of the store is the feed entry with the two keys that \<^verbatim>\<open>fetch_queries\<close> adds.
  \<^verbatim>\<open>signed\<close> is first the string of the baseline signature and later whatever object a
  registry returned.
\<close>

record query = feed_query +
  signed_by :: "string list"
  signed :: json

text \<open>
  \<^verbatim>\<open>signed_query_store\<close>, a Python dict: keys are distinct and keep their order of insertion.
  \<open>map_of\<close> reads it, \<open>AList.update\<close> assigns to a key (in place when the key is present, at
  the end when it is new) and \<open>AList.delete\<close> removes a key.
\<close>

type_synonym store = "(string \<times> query) list"

text \<open>\<^verbatim>\<open>k in signed_query_store\<close>.\<close>

definition contains :: "store \<Rightarrow> string \<Rightarrow> bool" where
  "contains st k = (k \<in> fst ` set st)"

datatype py_error = KeyError | ValueError | TypeError | Exception

text \<open>
  The functions of the module \<^verbatim>\<open>lib\<close> and \<^verbatim>\<open>json.dumps\<close>, which the code calls and this
  repository does not define, are parameters: \<open>sign\<close> stands for
  \<^verbatim>\<open>sign(original).data.decode("utf-8")\<close>.
\<close>

record 'b lib =
  json_dumps :: "json \<Rightarrow> string"
  sign :: "string \<Rightarrow> string"
  verify :: "json \<Rightarrow> bool"
  serialize_encrypt_and_encode :: "query list \<Rightarrow> string \<Rightarrow> 'b"
  decode_decrypt_and_deserialize :: "'b \<Rightarrow> (string \<times> json) list"

section \<open>The query server (query.py)\<close>

subsection \<open>fetch\_queries\<close>

text \<open>
  One round of the loop of \<^verbatim>\<open>fetch_queries\<close>. The store is mutated in place, so the
  result carries the store also when the round raises.
\<close>

definition fetch_query ::
  "'b lib \<Rightarrow> feed_query \<Rightarrow> store \<Rightarrow> py_error option \<times> store" where
  "fetch_query L q st =
     (let query_id = qid q in
      if \<not> get_truthy (status q) \<and> \<not> contains st query_id then
        (None,
         AList.update query_id
           \<lparr>qid = qid q, status = status q, qfields = qfields q, sources = sources q,
            signed_by = [], signed = JStr (sign L (json_dumps L (qfields q)))\<rparr> st)
      else if get_truthy (status q) then
        (if contains st query_id then (None, AList.delete query_id st)
         else (Some KeyError, st))
      else (None, st))"

text \<open>
  The loop over \<^verbatim>\<open>queries['queries']\<close>, the decoded body of the feed. The argument
  \<^verbatim>\<open>registry_id\<close> is kept as the source has it.
\<close>

fun fetch_queries ::
  "'b lib \<Rightarrow> json \<Rightarrow> feed_query list \<Rightarrow> store \<Rightarrow> py_error option \<times> store" where
  "fetch_queries L registry_id [] st = (None, st)"
| "fetch_queries L registry_id (q # queries) st =
     (case fetch_query L q st of
        (Some e, st') \<Rightarrow> (Some e, st')
      | (None, st') \<Rightarrow> fetch_queries L registry_id queries st')"

subsection \<open>filter\_queries\<close>

text \<open>The loop over \<^verbatim>\<open>signed_query_store.items()\<close>, appending to \<^verbatim>\<open>filtered\<close>.\<close>

fun filter_loop :: "string \<Rightarrow> store \<Rightarrow> query list \<Rightarrow> query list" where
  "filter_loop registry_id [] filtered = filtered"
| "filter_loop registry_id ((query_id, query) # items) filtered =
     filter_loop registry_id items
       (if registry_id \<in> set (sources query) then filtered @ [query] else filtered)"

definition filter_queries :: "string \<Rightarrow> store \<Rightarrow> query list" where
  "filter_queries registry_id st = filter_loop registry_id st []"

subsection \<open>QueryHandler.handle\<close>

text \<open>
  The loop over \<^verbatim>\<open>signed_queries.items()\<close>. \<open>merge_signed\<close> is the update of one entry:
  \<^verbatim>\<open>signed_query_store[query_id]\<close> raises \<^verbatim>\<open>KeyError\<close> for an absent key, before anything
  is changed.
\<close>

definition merge_signed :: "string \<Rightarrow> string \<Rightarrow> json \<Rightarrow> store \<Rightarrow> py_error option \<times> store" where
  "merge_signed source_id query_id query st =
     (case map_of st query_id of
        None \<Rightarrow> (Some KeyError, st)
      | Some r \<Rightarrow>
          (None,
           AList.update query_id
             (r\<lparr>signed_by := signed_by r @ [source_id], signed := query\<rparr>) st))"

fun merge_loop ::
  "'b lib \<Rightarrow> string \<Rightarrow> (string \<times> json) list \<Rightarrow> store \<Rightarrow> py_error option \<times> store" where
  "merge_loop L source_id [] st = (None, st)"
| "merge_loop L source_id ((query_id, query) # items) st =
     (if \<not> verify L query then (Some ValueError, st)
      else
        (case merge_signed source_id query_id query st of
           (Some e, st') \<Rightarrow> (Some e, st')
         | (None, st') \<Rightarrow> merge_loop L source_id items st'))"

definition valid_sources :: "string list" where
  "valid_sources = [''hunt'', ''cancer'', ''death'']"

text \<open>What the handler does to the outside: the request of the feed and the frame it sends.\<close>

datatype 'b event = UrlOpen | SendAll 'b

text \<open>
  The handler. \<open>data\<close> is the decoded request line, \<open>recipients\<close> is \<^verbatim>\<open>config.RECIPIENTS\<close>
  (a dict from registry id to the recipient's key name; an empty name is false),
  \<open>feed\<close> is what the feed answers when it is asked and \<open>received\<close> the line the registry
  sends back. The result is the exception raised (if any), the events in their order and
  the store.
\<close>

definition handle ::
  "'b lib \<Rightarrow> (string \<rightharpoonup> string) \<Rightarrow> (string \<times> json) list \<Rightarrow>
   feed_query list \<Rightarrow> 'b \<Rightarrow> store \<Rightarrow> py_error option \<times> 'b event list \<times> store" where
  "handle L recipients data feed received st =
     (case map_of data ''source_id'' of
        None \<Rightarrow> (Some KeyError, [], st)
      | Some source_id \<Rightarrow>
          (case source_id of
             JStr s \<Rightarrow>
               (if s \<in> set valid_sources then
                  (case fetch_queries L source_id feed st of
                     (Some e, st1) \<Rightarrow> (Some e, [UrlOpen], st1)
                   | (None, st1) \<Rightarrow>
                       (let queries = filter_queries s st1 in
                        case recipients s of
                          None \<Rightarrow> (Some KeyError, [UrlOpen], st1)
                        | Some r \<Rightarrow>
                            if r = [] then (Some Exception, [UrlOpen], st1)
                            else
                              (let encrypted = serialize_encrypt_and_encode L queries r;
                                   signed_queries = decode_decrypt_and_deserialize L received
                               in case merge_loop L s signed_queries st1 of
                                    (e, st2) \<Rightarrow> (e, [UrlOpen, SendAll encrypted], st2))))
                else (None, [], st))
           | _ \<Rightarrow> (None, [], st)))"

section \<open>The summary server (summarize.py)\<close>

subsection \<open>Dicts keyed by decoded values\<close>

text \<open>
  The values of a line become keys of a dict. A Python dict hashes its keys: a \<^verbatim>\<open>list\<close> or
  a \<^verbatim>\<open>dict\<close> is unhashable, and the lookup raises \<^verbatim>\<open>TypeError\<close>.
\<close>

fun hashable :: "json \<Rightarrow> bool" where
  "hashable (JList xs) = False"
| "hashable (JDict kvs) = False"
| "hashable v = True"

text \<open>
  Two keys are one key when they are equal by \<^verbatim>\<open>==\<close> (and then their hashes are equal):
  \<^verbatim>\<open>bool\<close> is a number in Python, numbers are compared by their exact values, so \<^verbatim>\<open>1\<close>,
  \<^verbatim>\<open>True\<close> and \<^verbatim>\<open>1.0\<close> are one key, as are \<^verbatim>\<open>0\<close>, \<^verbatim>\<open>False\<close> and \<^verbatim>\<open>0.0\<close>; a string or
  \<^verbatim>\<open>None\<close> is equal to itself only. (Used on hashable values only.)
\<close>

fun number :: "json \<Rightarrow> rat option" where
  "number (JBool b) = Some (if b then 1 else 0)"
| "number (JInt n) = Some (of_int n)"
| "number (JFloat x) = Some x"
| "number v = None"

definition key_eq :: "json \<Rightarrow> json \<Rightarrow> bool" where
  "key_eq a b =
     (case (number a, number b) of
        (Some x, Some y) \<Rightarrow> x = y
      | (None, None) \<Rightarrow> a = b
      | _ \<Rightarrow> False)"

text \<open>
  \<^verbatim>\<open>d.get(v)\<close> and \<^verbatim>\<open>d[v] = x\<close> on a dict keyed by values. An assignment to a key that the
  dict holds keeps the key as it was first stored and replaces its value; a new key goes to
  the end.
\<close>

fun py_get :: "(json \<times> 'a) list \<Rightarrow> json \<Rightarrow> 'a option" where
  "py_get [] v = None"
| "py_get ((k, x) # d) v = (if key_eq k v then Some x else py_get d v)"

fun py_set :: "json \<Rightarrow> 'a \<Rightarrow> (json \<times> 'a) list \<Rightarrow> (json \<times> 'a) list" where
  "py_set v x [] = [(v, x)]"
| "py_set v x ((k, y) # d) = (if key_eq k v then (k, x) # d else (k, y) # py_set v x d)"

subsection \<open>create\_summary\<close>

text \<open>
  \<^verbatim>\<open>results\<close>, a dict from field names (strings, the keys of JSON objects) to dicts from
  values to counters, with the order of insertion of both levels.
\<close>

type_synonym results = "(string \<times> (json \<times> nat) list) list"

text \<open>
  The body of the innermost loop of \<^verbatim>\<open>create_summary\<close>, statement by statement. The test
  \<^verbatim>\<open>value not in results[key]\<close> hashes the value and raises \<^verbatim>\<open>TypeError\<close> when it cannot;
  \<^verbatim>\<open>results\<close> is local, so nothing of it is left after the raise. The two lookups
  \<^verbatim>\<open>results[key]\<close> and \<^verbatim>\<open>results[key][value]\<close> cannot miss, since the statement before
  each one has put the key in.
\<close>

definition count_value :: "string \<Rightarrow> json \<Rightarrow> results \<Rightarrow> py_error + results" where
  "count_value key val results =
     (let results1 = (if key \<notin> fst ` set results then AList.update key [] results else results);
          d = (case map_of results1 key of None \<Rightarrow> [] | Some d \<Rightarrow> d)
      in if \<not> hashable val then Inl TypeError
         else
           (let d1 = (if py_get d val = None then py_set val 0 d else d);
                d2 = py_set val ((case py_get d1 val of None \<Rightarrow> 0 | Some n \<Rightarrow> n) + 1) d1
            in Inr (AList.update key d2 results1)))"

text \<open>
  The three nested loops: over the items of one line (a dict, read in its order), over the
  lines of one individual, and over the individuals. An exception ends all three.
\<close>

fun count_items :: "(string \<times> json) list \<Rightarrow> results \<Rightarrow> py_error + results" where
  "count_items [] results = Inr results"
| "count_items ((key, val) # items) results =
     (case count_value key val results of
        Inl e \<Rightarrow> Inl e
      | Inr results' \<Rightarrow> count_items items results')"

fun count_lines :: "(string \<times> json) list list \<Rightarrow> results \<Rightarrow> py_error + results" where
  "count_lines [] results = Inr results"
| "count_lines (registry_data # individual_data) results =
     (case count_items registry_data results of
        Inl e \<Rightarrow> Inl e
      | Inr results' \<Rightarrow> count_lines individual_data results')"

fun count_individuals :: "(string \<times> json) list list list \<Rightarrow> results \<Rightarrow> py_error + results" where
  "count_individuals [] results = Inr results"
| "count_individuals (individual_data # data) results =
     (case count_lines individual_data results of
        Inl e \<Rightarrow> Inl e
      | Inr results' \<Rightarrow> count_individuals data results')"

definition create_summary :: "(string \<times> json) list list list \<Rightarrow> py_error + results" where
  "create_summary data = count_individuals data []"

section \<open>Concrete inputs\<close>

text \<open>An in-memory stand-in for \<^verbatim>\<open>lib\<close>: a returned object verifies when it is the string "good".\<close>

definition fake_lib :: "string lib" where
  "fake_lib =
     \<lparr>json_dumps = (\<lambda>j. ''{}''),
      sign = (\<lambda>s. ''signed:'' @ s),
      verify = (\<lambda>q. q = JStr ''good''),
      serialize_encrypt_and_encode = (\<lambda>qs r. ''frame for '' @ r),
      decode_decrypt_and_deserialize = (\<lambda>b. [(b, JStr ''good'')])\<rparr>"

definition q1 :: query where
  "q1 = \<lparr>qid = ''q1'', status = None, qfields = JDict [(''a'', JInt 1)], sources = [''hunt''],
         signed_by = [], signed = JStr ''signed:{}''\<rparr>"

definition q2 :: query where
  "q2 = \<lparr>qid = ''q2'', status = None, qfields = JDict [], sources = [''cancer'', ''hunt''],
         signed_by = [''cancer''], signed = JStr ''good''\<rparr>"

definition done1 :: feed_query where
  "done1 = \<lparr>qid = ''q1'', status = Some (JStr ''done''), qfields = JDict [(''a'', JInt 1)],
            sources = [''hunt'']\<rparr>"

definition new3 :: feed_query where
  "new3 = \<lparr>qid = ''q3'', status = None, qfields = JDict [], sources = [''death'']\<rparr>"

definition q3 :: query where
  "q3 = \<lparr>qid = ''q3'', status = None, qfields = JDict [], sources = [''hunt''],
         signed_by = [], signed = JStr ''signed:{}''\<rparr>"

section \<open>Notions used to state the properties\<close>

text \<open>
  Reading a tally. \<open>counter\<close> is \<^verbatim>\<open>results[f][v]\<close> as Python looks it up, with \<open>None\<close>
  where Python raises \<^verbatim>\<open>KeyError\<close>; \<open>stored\<close> is the counter kept under the key \<open>v\<close>
  itself, as the tally reads once it is written out.
\<close>

definition counter :: "results \<Rightarrow> string \<Rightarrow> json \<Rightarrow> nat option" where
  "counter results f v = (case map_of results f of None \<Rightarrow> None | Some d \<Rightarrow> py_get d v)"


text \<open>The counter read as a number: zero where the tally has no entry.\<close>

definition cnt :: "results \<Rightarrow> string \<Rightarrow> json \<Rightarrow> nat" where
  "cnt r f v = (case counter r f v of None \<Rightarrow> 0 | Some n \<Rightarrow> n)"

text \<open>
  A tally as a mapping of mappings of counts: \<open>as_mapping\<close> by the keys it stores,
  \<open>py_mapping\<close> by Python's lookup. Two tallies are equal by Python's \<^verbatim>\<open>==\<close> of dicts when
  their \<open>py_mapping\<close>s are equal.
\<close>

definition as_mapping :: "results \<Rightarrow> string \<rightharpoonup> (json \<rightharpoonup> nat)" where
  "as_mapping results f = map_option map_of (map_of results f)"

definition py_mapping :: "results \<Rightarrow> string \<rightharpoonup> (json \<rightharpoonup> nat)" where
  "py_mapping results f = map_option py_get (map_of results f)"




text \<open>The same count over the items of all lines.\<close>

definition occ :: "(string \<times> json) list \<Rightarrow> string \<Rightarrow> json \<Rightarrow> nat" where
  "occ items f v = length (filter (\<lambda>(k, w). k = f \<and> key_eq w v) items)"

text \<open>
  Items in which no field has two different values that are equal by \<^verbatim>\<open>==\<close> (as when all
  values of a field are strings).
\<close>

definition unambiguous :: "(string \<times> json) list \<Rightarrow> bool" where
  "unambiguous items =
     (\<forall>(f, v)\<in>set items. \<forall>(g, w)\<in>set items. f = g \<and> key_eq v w \<longrightarrow> v = w)"

text \<open>The keys that a tally stores for a field.\<close>

definition keys_of :: "results \<Rightarrow> string \<Rightarrow> json set" where
  "keys_of r f = (case map_of r f of None \<Rightarrow> {} | Some d \<Rightarrow> fst ` set d)"

section \<open>Properties of the query server\<close>

subsection \<open>Association lists as dicts\<close>

lemma update_new_key: "k \<notin> fst ` set al \<Longrightarrow> AList.update k v al = al @ [(k, v)]"
  by (induction al) auto

lemma contains_map_of: "contains st k = (map_of st k \<noteq> None)"
  by (simp add: contains_def map_of_eq_None_iff)

lemma count_key_distinct:
  "distinct (map fst al) \<Longrightarrow> k \<in> fst ` set al \<Longrightarrow> length (filter (\<lambda>e. fst e = k) al) = 1"
  by (induction al) (auto simp: filter_empty_conv image_iff)

lemma count_key_absent:
  "k \<notin> fst ` set al \<Longrightarrow> filter (\<lambda>e. fst e = k) al = []"
  by (induction al) auto

subsection \<open>fetch\_queries\<close>

text \<open>
  C10. The ingestion of the feed does not depend on who asks: for every feed and every
  store, \<^verbatim>\<open>fetch_queries\<close> called with two registry ids ends with the same exception (or
  none) and the same store.
\<close>

theorem fetch_queries_registry_independent:
  "fetch_queries L r1 feed st = fetch_queries L r2 feed st"
  by (induction feed arbitrary: st) (auto split: prod.splits option.splits)

text \<open>
  C3. A feed entry without the key \<^verbatim>\<open>status\<close>, ingested into a store (a dict, so its keys
  are distinct): when its id is new, the store gains exactly one record, at the end, with
  \<^verbatim>\<open>signed_by\<close> empty and \<^verbatim>\<open>signed\<close> the signature of the serialised \<^verbatim>\<open>fields\<close>; when its
  id is present, the store is left as it is. Ingesting the entry twice gives what
  ingesting it once gives, and the store then holds one record of that id.
\<close>

theorem ingest_unsigned:
  assumes "status q = None" and "distinct (map fst st)"
  shows "(\<not> contains st (qid q) \<longrightarrow>
            fetch_query L q st =
              (None, st @ [(qid q, \<lparr>qid = qid q, status = None, qfields = qfields q,
                                   sources = sources q, signed_by = [],
                                   signed = JStr (sign L (json_dumps L (qfields q)))\<rparr>)])) \<and>
         (contains st (qid q) \<longrightarrow> fetch_query L q st = (None, st)) \<and>
         fetch_queries L r [q] st = fetch_query L q st \<and>
         fetch_queries L r [q, q] st = fetch_queries L r [q] st \<and>
         length (filter (\<lambda>e. fst e = qid q) (snd (fetch_queries L r [q, q] st))) = 1"
proof -
  let ?new = "\<lparr>qid = qid q, status = None, qfields = qfields q, sources = sources q,
               signed_by = [], signed = JStr (sign L (json_dumps L (qfields q)))\<rparr>"
  have absent: "fetch_query L q st = (None, st @ [(qid q, ?new)])" if "\<not> contains st (qid q)"
    using that assms(1)
    by (simp add: fetch_query_def Let_def get_truthy_def contains_def update_new_key)
  have present: "fetch_query L q st = (None, st)" if "contains st (qid q)" for st
    using that assms(1) by (simp add: fetch_query_def Let_def get_truthy_def)
  have once: "fetch_queries L r [q] st = fetch_query L q st"
    using absent present by (cases "contains st (qid q)") simp_all
  have twice: "fetch_queries L r [q, q] st = fetch_queries L r [q] st"
  proof (cases "contains st (qid q)")
    case True
    then show ?thesis by (simp add: present)
  next
    case False
    have "contains (st @ [(qid q, ?new)]) (qid q)" by (simp add: contains_def)
    from present [OF this] absent [OF False] show ?thesis by simp
  qed
  have one: "length (filter (\<lambda>e. fst e = qid q) (snd (fetch_query L q st))) = 1"
  proof (cases "contains st (qid q)")
    case True
    with assms(2) show ?thesis by (simp add: present count_key_distinct contains_def)
  next
    case False
    then show ?thesis by (simp add: absent count_key_absent contains_def)
  qed
  from absent present once twice one show ?thesis by simp
qed

text \<open>The entry \<open>new3\<close>, of a new id, ingested into the store that holds \<open>q1\<close>.\<close>

theorem ingest_unsigned_witness:
  "status new3 = None \<and> distinct (map fst [(''q1'', q1)]) \<and> \<not> contains [(''q1'', q1)] (qid new3) \<and>
   fetch_query fake_lib new3 [(''q1'', q1)] =
     (None, [(''q1'', q1),
             (''q3'', \<lparr>qid = ''q3'', status = None, qfields = JDict [], sources = [''death''],
                       signed_by = [], signed = JStr ''signed:{}''\<rparr>)]) \<and>
   fetch_queries fake_lib (JStr ''hunt'') [new3, new3] [(''q1'', q1)] =
     fetch_queries fake_lib (JStr ''hunt'') [new3] [(''q1'', q1)]"
proof -
  have a: "status new3 = None" by (simp add: new3_def)
  have b: "distinct (map fst [(''q1'', q1)])" by simp
  have c: "\<not> contains [(''q1'', q1)] (qid new3)" by (simp add: contains_def new3_def)
  from ingest_unsigned [OF a b, of fake_lib "JStr ''hunt''"] c
  have d: "fetch_query fake_lib new3 [(''q1'', q1)] =
      (None, [(''q1'', q1)] @ [(qid new3, \<lparr>qid = qid new3, status = None, qfields = qfields new3,
         sources = sources new3, signed_by = [],
         signed = JStr (sign fake_lib (json_dumps fake_lib (qfields new3)))\<rparr>)])"
    and e: "fetch_queries fake_lib (JStr ''hunt'') [new3, new3] [(''q1'', q1)] =
      fetch_queries fake_lib (JStr ''hunt'') [new3] [(''q1'', q1)]"
    by blast+
  have f: "qid new3 = ''q3''" "qfields new3 = JDict []" "sources new3 = [''death'']"
    "sign fake_lib (json_dumps fake_lib (JDict [])) = ''signed:{}''"
    by (simp_all add: new3_def fake_lib_def)
  from d have "fetch_query fake_lib new3 [(''q1'', q1)] =
     (None, [(''q1'', q1),
             (''q3'', \<lparr>qid = ''q3'', status = None, qfields = JDict [], sources = [''death''],
                       signed_by = [], signed = JStr ''signed:{}''\<rparr>)])"
    unfolding f by simp
  with a b c e show ?thesis by blast
qed

text \<open>
  A feed entry with a true \<^verbatim>\<open>status\<close> whose id is in the store: the record is removed,
  whatever its \<^verbatim>\<open>signed_by\<close> holds.
\<close>

lemma purge_present:
  "get_truthy (status q) \<Longrightarrow> contains st (qid q) \<Longrightarrow>
   fetch_query L q st = (None, AList.delete (qid q) st)"
  by (simp add: fetch_query_def Let_def)

text \<open>
  C4. A feed entry with \<^verbatim>\<open>status\<close> set whose id is not in the store: the removal is meant
  to pass silently, but \<^verbatim>\<open>del signed_query_store[query_id]\<close> raises \<^verbatim>\<open>KeyError\<close>. On the
  empty store the entry \<open>done1\<close> raises; and a feed that lists it twice, on a store that
  holds its record, removes the record and then raises.
\<close>

theorem purge_absent_raises:
  "fetch_queries L r [done1] [] = (Some KeyError, []) \<and>
   fetch_queries L r [done1, done1] [(''q1'', q1)] = (Some KeyError, [])"
  by (simp add: fetch_query_def Let_def done1_def get_truthy_def contains_def)

subsection \<open>filter\_queries\<close>

lemma filter_loop_eq:
  "filter_loop r st acc = acc @ filter (\<lambda>q. r \<in> set (sources q)) (map snd st)"
  by (induction r st acc rule: filter_loop.induct) auto

text \<open>
  C6. For every registry id and every store, \<^verbatim>\<open>filter_queries\<close> returns exactly the
  records of the store whose \<^verbatim>\<open>sources\<close> contain the registry id (in the order of the
  store, each once): what it returns has the id in its sources, and every record of the
  store that has the id in its sources is returned.
\<close>

theorem filter_queries_exact:
  "filter_queries R S = filter (\<lambda>q. R \<in> set (sources q)) (map snd S) \<and>
   set (filter_queries R S) = {q \<in> snd ` set S. R \<in> set (sources q)}"
  by (simp add: filter_queries_def filter_loop_eq)

subsection \<open>QueryHandler.handle\<close>

text \<open>
  C7. A request whose \<^verbatim>\<open>source_id\<close> is not one of \<^verbatim>\<open>'hunt'\<close>, \<^verbatim>\<open>'cancer'\<close>, \<^verbatim>\<open>'death'\<close>:
  the handler raises nothing, asks the feed for nothing, sends nothing, and the store after
  it is the store before it, whatever the feed and the line received would have been.
\<close>

theorem handle_unauthorized:
  "map_of data ''source_id'' = Some sid \<Longrightarrow> sid \<notin> JStr ` set valid_sources \<Longrightarrow>
   handle L recipients data feed received st = (None, [], st)"
  by (auto simp: handle_def split: json.splits)

theorem handle_unauthorized_witness:
  "map_of [(''source_id'', JStr ''eve'')] ''source_id'' = Some (JStr ''eve'') \<and>
   JStr ''eve'' \<notin> JStr ` set valid_sources \<and>
   handle fake_lib [''hunt'' \<mapsto> ''hunt-key''] [(''source_id'', JStr ''eve'')] [new3] ''q2''
     [(''q2'', q2)] = (None, [], [(''q2'', q2)])"
proof -
  have a: "map_of [(''source_id'', JStr ''eve'')] ''source_id'' = Some (JStr ''eve'')" by simp
  have b: "JStr ''eve'' \<notin> JStr ` set valid_sources" by (simp add: valid_sources_def)
  show ?thesis using a b handle_unauthorized [OF a b] by simp
qed

text \<open>The update of one entry: the keys of the store, and the records of the other keys.\<close>

lemma merge_signed_other:
  "k \<noteq> query_id \<Longrightarrow> map_of (snd (merge_signed s query_id q st)) k = map_of st k"
  by (simp add: merge_signed_def update_conv' split: option.splits)

lemma merge_signed_keys: "map fst (snd (merge_signed s k q st)) = map fst st"
  by (auto simp: merge_signed_def update_keys map_of_eq_None_iff image_iff split: option.splits)

lemma merge_signed_contains: "contains (snd (merge_signed s k q st)) k' = contains st k'"
  using merge_signed_keys [of s k q st] by (metis contains_def list.set_map)

lemma merge_signed_ok: "contains st k \<Longrightarrow> fst (merge_signed s k q st) = None"
  by (auto simp: merge_signed_def contains_map_of)

text \<open>
  C5. Merging the object returned for a query id: when the id is not in the store the
  update raises \<^verbatim>\<open>KeyError\<close> (the rejection of an unknown query) and the store is as
  before; when the id has a record, the update raises nothing, the record has the
  requesting registry's id appended to \<^verbatim>\<open>signed_by\<close> and the returned object as
  \<^verbatim>\<open>signed\<close>, and the other records and the order of the keys are as before.
\<close>

theorem merge_signed_spec:
  "(\<not> contains st k \<longrightarrow> merge_signed s k q st = (Some KeyError, st)) \<and>
   (\<forall>r. map_of st k = Some r \<longrightarrow>
      fst (merge_signed s k q st) = None \<and>
      map_of (snd (merge_signed s k q st)) =
        (map_of st)(k \<mapsto> r\<lparr>signed_by := signed_by r @ [s], signed := q\<rparr>) \<and>
      map fst (snd (merge_signed s k q st)) = map fst st)"
proof -
  have absent: "merge_signed s k q st = (Some KeyError, st)" if "\<not> contains st k"
    using that by (simp add: merge_signed_def contains_map_of)
  have present: "fst (merge_signed s k q st) = None \<and>
      map_of (snd (merge_signed s k q st)) =
        (map_of st)(k \<mapsto> r\<lparr>signed_by := signed_by r @ [s], signed := q\<rparr>) \<and>
      map fst (snd (merge_signed s k q st)) = map fst st" if "map_of st k = Some r" for r
  proof -
    from that have "k \<in> fst ` set st" by (metis map_of_eq_None_iff option.distinct(1))
    then have "k \<in> set (map fst st)" by simp
    with that show ?thesis by (simp add: merge_signed_def update_conv' update_keys del: set_map)
  qed
  from absent present show ?thesis by blast
qed

theorem merge_signed_spec_witness:
  "\<not> contains [(''q1'', q1)] ''q9'' \<and>
   merge_signed ''hunt'' ''q9'' (JStr ''good'') [(''q1'', q1)] = (Some KeyError, [(''q1'', q1)]) \<and>
   map_of [(''q1'', q1), (''q2'', q2)] ''q2'' = Some q2 \<and>
   merge_signed ''hunt'' ''q2'' (JStr ''good'') [(''q1'', q1), (''q2'', q2)] =
     (None, [(''q1'', q1),
             (''q2'', q2\<lparr>signed_by := [''cancer'', ''hunt''], signed := JStr ''good''\<rparr>)])"
proof -
  have a: "\<not> contains [(''q1'', q1)] ''q9''" by (simp add: contains_def)
  have b: "map_of [(''q1'', q1), (''q2'', q2)] ''q2'' = Some q2" by simp
  have c: "merge_signed ''hunt'' ''q2'' (JStr ''good'') [(''q1'', q1), (''q2'', q2)] =
     (None, [(''q1'', q1),
             (''q2'', q2\<lparr>signed_by := [''cancer'', ''hunt''], signed := JStr ''good''\<rparr>)])"
    by (simp add: merge_signed_def q2_def)
  from merge_signed_spec [of "[(''q1'', q1)]" "''q9''" "''hunt''" "JStr ''good''"] a b c
  show ?thesis by simp
qed

text \<open>
  C1. In the loop over a returned batch (a dict, so its keys are distinct), an entry
  whose verification fails is never merged: the record of the store for its query id is,
  after the loop, the record it was before, and no record appears for it.
\<close>

theorem merge_only_verified:
  "distinct (map fst items) \<Longrightarrow> (k, q) \<in> set items \<Longrightarrow> \<not> verify L q \<Longrightarrow>
   map_of (snd (merge_loop L s items st)) k = map_of st k"
proof (induction items arbitrary: st)
  case Nil
  then show ?case by simp
next
  case (Cons e items)
  obtain k' q' where e: "e = (k', q')" by (cases e)
  show ?case
  proof (cases "(k, q) = e")
    case True
    with Cons.prems e show ?thesis by simp
  next
    case False
    with Cons.prems e have in_rest: "(k, q) \<in> set items" by auto
    with Cons.prems e have ne: "k \<noteq> k'" by force
    from Cons.prems have d: "distinct (map fst items)" by simp
    show ?thesis
    proof (cases "verify L q'")
      case False
      with e show ?thesis by simp
    next
      case True
      obtain err st' where m: "merge_signed s k' q' st = (err, st')"
        by (cases "merge_signed s k' q' st")
      have same: "map_of st' k = map_of st k"
        using merge_signed_other [OF ne, of s q' st] m by simp
      show ?thesis
      proof (cases err)
        case None
        with m True e Cons.IH [OF d in_rest Cons.prems(3), of st'] same
        show ?thesis by simp
      next
        case (Some x)
        with m True e same show ?thesis by simp
      qed
    qed
  qed
qed

text \<open>A batch of a good entry for \<open>q1\<close> and a bad one for \<open>q2\<close>: the record of \<open>q2\<close> stays.\<close>

theorem merge_only_verified_witness:
  "distinct (map fst [(''q1'', JStr ''good''), (''q2'', JStr ''bad'')]) \<and>
   \<not> verify fake_lib (JStr ''bad'') \<and>
   map_of (snd (merge_loop fake_lib ''hunt'' [(''q1'', JStr ''good''), (''q2'', JStr ''bad'')]
                  [(''q1'', q1), (''q2'', q2)])) ''q2'' = Some q2"
proof -
  have a: "distinct (map fst [(''q1'', JStr ''good''), (''q2'', JStr ''bad'')])" by simp
  have b: "(''q2'', JStr ''bad'') \<in> set [(''q1'', JStr ''good''), (''q2'', JStr ''bad'')]" by simp
  have c: "\<not> verify fake_lib (JStr ''bad'')" by (simp add: fake_lib_def)
  from merge_only_verified [OF a b c, of "''hunt''" "[(''q1'', q1), (''q2'', q2)]"] a c
  show ?thesis by simp
qed

lemma merge_loop_append:
  "merge_loop L s (xs @ ys) st =
     (case merge_loop L s xs st of
        (None, st') \<Rightarrow> merge_loop L s ys st'
      | (Some e, st') \<Rightarrow> (Some e, st'))"
  by (induction xs arbitrary: st) (auto split: prod.splits option.splits)

text \<open>
  A batch of distinct keys whose entries all verify and name ids of the store: the loop
  ends without an exception, each entry is merged into its record, and the other records
  and the order of the keys stay.
\<close>

lemma merge_signed_present:
  "map_of st k = Some r \<Longrightarrow>
   merge_signed s k q st =
     (None, AList.update k (r\<lparr>signed_by := signed_by r @ [s], signed := q\<rparr>) st)"
  by (simp add: merge_signed_def)

lemma merge_loop_prefix:
  "distinct (map fst xs) \<Longrightarrow> \<forall>e\<in>set xs. verify L (snd e) \<and> contains st (fst e) \<Longrightarrow>
   \<exists>st'. merge_loop L s xs st = (None, st') \<and> map fst st' = map fst st \<and>
     (\<forall>e\<in>set xs. \<exists>r. map_of st (fst e) = Some r \<and>
        map_of st' (fst e) = Some (r\<lparr>signed_by := signed_by r @ [s], signed := snd e\<rparr>)) \<and>
     (\<forall>k. k \<notin> fst ` set xs \<longrightarrow> map_of st' k = map_of st k)"
proof (induction xs arbitrary: st)
  case Nil
  then show ?case by simp
next
  case (Cons e xs)
  obtain k q where e: "e = (k, q)" by (cases e)
  from Cons.prems e have v: "verify L q" and c: "contains st k" by auto
  from c obtain r where r: "map_of st k = Some r" by (auto simp: contains_map_of)
  let ?r' = "r\<lparr>signed_by := signed_by r @ [s], signed := q\<rparr>"
  let ?st1 = "AList.update k ?r' st"
  have m: "merge_signed s k q st = (None, ?st1)" by (rule merge_signed_present [OF r])
  have keys1: "map fst ?st1 = map fst st"
    using merge_signed_keys [of s k q st] m by simp
  have other1: "map_of ?st1 k' = map_of st k'" if "k' \<noteq> k" for k'
    using that by (simp add: update_conv')
  have same1: "map_of ?st1 k = Some ?r'" by (simp add: update_conv')
  from Cons.prems e have d: "distinct (map fst xs)" and nk: "k \<notin> fst ` set xs" by auto
  have "\<forall>e\<in>set xs. verify L (snd e) \<and> contains ?st1 (fst e)"
    using Cons.prems(2) merge_signed_contains [of s k q st] m by auto
  from Cons.IH [OF d this] obtain st' where
    l: "merge_loop L s xs ?st1 = (None, st')" and
    keys: "map fst st' = map fst ?st1" and
    merged: "\<forall>e\<in>set xs. \<exists>r. map_of ?st1 (fst e) = Some r \<and>
        map_of st' (fst e) = Some (r\<lparr>signed_by := signed_by r @ [s], signed := snd e\<rparr>)" and
    rest: "\<forall>k. k \<notin> fst ` set xs \<longrightarrow> map_of st' k = map_of ?st1 k"
    by blast
  have 1: "merge_loop L s (e # xs) st = (None, st')" using e v m l by simp
  have 2: "map fst st' = map fst st" using keys keys1 by simp
  have 3: "\<exists>r. map_of st (fst e') = Some r \<and>
        map_of st' (fst e') = Some (r\<lparr>signed_by := signed_by r @ [s], signed := snd e'\<rparr>)"
    if "e' \<in> set (e # xs)" for e'
  proof (cases "e' = e")
    case True
    with e r rest nk same1 show ?thesis by simp
  next
    case False
    with that have in_xs: "e' \<in> set xs" by simp
    with nk have "fst e' \<noteq> k" by force
    with merged in_xs other1 show ?thesis by auto
  qed
  have 4: "map_of st' k' = map_of st k'" if "k' \<notin> fst ` set (e # xs)" for k'
  proof -
    from that e have "k' \<noteq> k" "k' \<notin> fst ` set xs" by auto
    with rest other1 show ?thesis by simp
  qed
  from 1 2 3 4 show ?case by blast
qed

text \<open>
  C2, as the claim states it, fails: a batch whose first entry verifies and whose second
  does not is aborted with \<^verbatim>\<open>ValueError\<close>, and the store is no longer the store at the
  start, since the first entry has been merged in place.
\<close>

theorem partial_merge_counterexample:
  "\<not> verify fake_lib (JStr ''bad'') \<and>
   merge_loop fake_lib ''hunt'' [(''q1'', JStr ''good''), (''q2'', JStr ''bad'')]
     [(''q1'', q1), (''q2'', q2)] =
     (Some ValueError,
      [(''q1'', q1\<lparr>signed_by := [''hunt''], signed := JStr ''good''\<rparr>), (''q2'', q2)]) \<and>
   [(''q1'', q1\<lparr>signed_by := [''hunt''], signed := JStr ''good''\<rparr>), (''q2'', q2)] \<noteq>
     [(''q1'', q1), (''q2'', q2)]"
  by (simp add: fake_lib_def merge_signed_def q1_def q2_def)

text \<open>
  C2, amended. When an entry of a returned batch (a dict, so its keys are distinct) fails
  verification, and the entries before it verify and name ids of the store, the loop is
  aborted at that entry with \<^verbatim>\<open>ValueError\<close>. In the store it leaves, the keys and their
  order are those of the start; every entry before the failing one is merged (its record
  has the registry's id appended to \<^verbatim>\<open>signed_by\<close> and the returned object as \<^verbatim>\<open>signed\<close>);
  the records of the failing entry and of every entry after it, and all records the batch
  does not name, are as at the start; and the store equals the store at the start exactly
  when the failing entry is the first of the batch.
\<close>

theorem abort_at_first_failure:
  assumes "distinct (map fst (pre @ (k, q) # post))"
    and "\<forall>e\<in>set pre. verify L (snd e) \<and> contains st (fst e)"
    and "\<not> verify L q"
  shows "\<exists>st'. merge_loop L s (pre @ (k, q) # post) st = (Some ValueError, st') \<and>
     map fst st' = map fst st \<and>
     (\<forall>e\<in>set pre. \<exists>r. map_of st (fst e) = Some r \<and>
        map_of st' (fst e) = Some (r\<lparr>signed_by := signed_by r @ [s], signed := snd e\<rparr>)) \<and>
     (\<forall>e\<in>set ((k, q) # post). map_of st' (fst e) = map_of st (fst e)) \<and>
     (\<forall>k'. k' \<notin> fst ` set pre \<longrightarrow> map_of st' k' = map_of st k') \<and>
     (st' = st) = (pre = [])"
proof -
  from assms(1) have d: "distinct (map fst pre)" by simp
  from merge_loop_prefix [OF d assms(2), of s] obtain st' where
    l: "merge_loop L s pre st = (None, st')" and
    keys: "map fst st' = map fst st" and
    merged: "\<forall>e\<in>set pre. \<exists>r. map_of st (fst e) = Some r \<and>
        map_of st' (fst e) = Some (r\<lparr>signed_by := signed_by r @ [s], signed := snd e\<rparr>)" and
    rest: "\<forall>k'. k' \<notin> fst ` set pre \<longrightarrow> map_of st' k' = map_of st k'"
    by blast
  have 1: "merge_loop L s (pre @ (k, q) # post) st = (Some ValueError, st')"
    using l assms(3) by (simp add: merge_loop_append)
  have 2: "\<forall>e\<in>set ((k, q) # post). map_of st' (fst e) = map_of st (fst e)"
  proof
    fix e assume "e \<in> set ((k, q) # post)"
    then have "fst e \<in> set (map fst ((k, q) # post))" by (simp only: set_map image_eqI)
    moreover from assms(1) have "set (map fst pre) \<inter> set (map fst ((k, q) # post)) = {}"
      by (simp only: map_append distinct_append)
    ultimately have "fst e \<notin> set (map fst pre)" by blast
    then have "fst e \<notin> fst ` set pre" by simp
    with rest show "map_of st' (fst e) = map_of st (fst e)" by simp
  qed
  have 3: "(st' = st) = (pre = [])"
  proof
    assume eq: "st' = st"
    show "pre = []"
    proof (rule ccontr)
      assume "pre \<noteq> []"
      then obtain e where "e \<in> set pre" by (cases pre) auto
      with merged obtain r where "map_of st (fst e) = Some r"
        "map_of st' (fst e) = Some (r\<lparr>signed_by := signed_by r @ [s], signed := snd e\<rparr>)"
        by blast
      with eq have "r = r\<lparr>signed_by := signed_by r @ [s], signed := snd e\<rparr>" by simp
      then have "signed_by r = signed_by (r\<lparr>signed_by := signed_by r @ [s], signed := snd e\<rparr>)"
        by simp
      then show False by simp
    qed
  next
    assume "pre = []"
    with l show "st' = st" by simp
  qed
  from 1 keys merged 2 rest 3 show ?thesis by blast
qed

text \<open>
  A batch of three: the first entry verifies and is merged, the second fails, and the
  third, which would verify, is not merged.
\<close>

theorem abort_at_first_failure_witness:
  "distinct (map fst [(''q1'', JStr ''good''), (''q2'', JStr ''bad''), (''q3'', JStr ''good'')]) \<and>
   verify fake_lib (JStr ''good'') \<and> contains [(''q1'', q1), (''q2'', q2), (''q3'', q3)] ''q1'' \<and>
   \<not> verify fake_lib (JStr ''bad'') \<and>
   merge_loop fake_lib ''hunt'' [(''q1'', JStr ''good''), (''q2'', JStr ''bad''), (''q3'', JStr ''good'')]
     [(''q1'', q1), (''q2'', q2), (''q3'', q3)] =
     (Some ValueError,
      [(''q1'', q1\<lparr>signed_by := [''hunt''], signed := JStr ''good''\<rparr>), (''q2'', q2), (''q3'', q3)])"
proof -
  let ?st = "[(''q1'', q1), (''q2'', q2), (''q3'', q3)]"
  have a: "distinct (map fst ([(''q1'', JStr ''good'')] @ (''q2'', JStr ''bad'') # [(''q3'', JStr ''good'')]))"
    by simp
  have b: "\<forall>e\<in>set [(''q1'', JStr ''good'')]. verify fake_lib (snd e) \<and> contains ?st (fst e)"
    by (simp add: fake_lib_def contains_def)
  have c: "\<not> verify fake_lib (JStr ''bad'')" by (simp add: fake_lib_def)
  from abort_at_first_failure [OF a b c, of "''hunt''"] obtain st' where
    l: "merge_loop fake_lib ''hunt'' ([(''q1'', JStr ''good'')] @ (''q2'', JStr ''bad'') # [(''q3'', JStr ''good'')]) ?st
          = (Some ValueError, st')" and
    keys: "map fst st' = map fst ?st" and
    m1: "\<forall>e\<in>set [(''q1'', JStr ''good'')]. \<exists>r. map_of ?st (fst e) = Some r \<and>
        map_of st' (fst e) = Some (r\<lparr>signed_by := signed_by r @ [''hunt''], signed := snd e\<rparr>)" and
    m2: "\<forall>e\<in>set ((''q2'', JStr ''bad'') # [(''q3'', JStr ''good'')]). map_of st' (fst e) = map_of ?st (fst e)"
    by blast
  from keys obtain r1 r2 r3 where st': "st' = [(''q1'', r1), (''q2'', r2), (''q3'', r3)]"
    by (auto simp: map_eq_Cons_conv)
  from m1 st' have "r1 = q1\<lparr>signed_by := [''hunt''], signed := JStr ''good''\<rparr>"
    by (simp add: q1_def)
  moreover from m2 st' have "r2 = q2" "r3 = q3" by simp_all
  ultimately have "st' = [(''q1'', q1\<lparr>signed_by := [''hunt''], signed := JStr ''good''\<rparr>), (''q2'', q2), (''q3'', q3)]"
    using st' by simp
  with l a b c show ?thesis by (simp add: fake_lib_def contains_def)
qed

section \<open>Properties of the summary server\<close>

subsection \<open>Keys of a dict\<close>

lemma key_eq_refl [simp]: "key_eq a a"
  by (simp add: key_eq_def split: option.splits)

lemma key_eq_sym: "key_eq a b = key_eq b a"
  by (auto simp: key_eq_def split: option.splits)

lemma key_eq_trans: "key_eq a b \<Longrightarrow> key_eq b c \<Longrightarrow> key_eq a c"
  by (auto simp: key_eq_def split: option.splits)

lemma key_eq_cong: "key_eq a b \<Longrightarrow> key_eq a c = key_eq b c"
  by (metis key_eq_sym key_eq_trans)

lemma key_eq_cong2: "key_eq v w \<Longrightarrow> key_eq k v = key_eq k w"
  by (metis key_eq_sym key_eq_trans)

lemma py_get_cong: "key_eq v w \<Longrightarrow> py_get d v = py_get d w"
  by (induction d) (auto simp: key_eq_cong2)

lemma py_get_py_set:
  "py_get (py_set v x d) w = (if key_eq v w then Some x else py_get d w)"
proof (induction d)
  case Nil
  then show ?case by simp
next
  case (Cons e d)
  obtain k y where e: "e = (k, y)" by (cases e)
  show ?case
  proof (cases "key_eq k v")
    case True
    then have "key_eq k w = key_eq v w" by (rule key_eq_cong)
    with True e show ?thesis by simp
  next
    case False
    have "\<not> (key_eq k w \<and> key_eq v w)"
      using False by (metis key_eq_sym key_eq_trans)
    with False e Cons.IH show ?thesis by auto
  qed
qed


subsection \<open>One step of the tally\<close>

lemma not_key_iff: "(k \<notin> fst ` set al) = (map_of al k = None)"
  by (simp add: map_of_eq_None_iff)

text \<open>One step on a hashable value, as an update of the two dicts.\<close>

lemma count_value_hashable:
  assumes "hashable v"
  shows "\<exists>r' d'. count_value k v r = Inr r' \<and> map_of r' = (map_of r)(k \<mapsto> d') \<and>
           (\<forall>w. py_get d' w = (if key_eq v w then Some (cnt r k v + 1) else counter r k w))"
proof (cases "map_of r k")
  case None
  let ?d' = "py_set v (Suc 0) (py_set v 0 [])"
  from None assms have "count_value k v r = Inr (AList.update k ?d' (AList.update k [] r))"
    by (simp add: count_value_def not_key_iff update_conv')
  moreover have "map_of (AList.update k ?d' (AList.update k [] r)) = (map_of r)(k \<mapsto> ?d')"
    by (simp add: update_conv')
  moreover have "\<forall>w. py_get ?d' w = (if key_eq v w then Some (cnt r k v + 1) else counter r k w)"
    using None by (simp add: cnt_def counter_def)
  ultimately show ?thesis by blast
next
  case (Some d)
  show ?thesis
  proof (cases "py_get d v")
    case None
    let ?d' = "py_set v (Suc 0) (py_set v 0 d)"
    from None Some assms have "count_value k v r = Inr (AList.update k ?d' r)"
      by (simp add: count_value_def not_key_iff py_get_py_set)
    moreover have "map_of (AList.update k ?d' r) = (map_of r)(k \<mapsto> ?d')"
      by (simp add: update_conv')
    moreover have "\<forall>w. py_get ?d' w = (if key_eq v w then Some (cnt r k v + 1) else counter r k w)"
      using None Some by (simp add: cnt_def counter_def py_get_py_set)
    ultimately show ?thesis by blast
  next
    case (Some n)
    let ?d' = "py_set v (Suc n) d"
    from Some \<open>map_of r k = Some d\<close> assms have "count_value k v r = Inr (AList.update k ?d' r)"
      by (simp add: count_value_def not_key_iff)
    moreover have "map_of (AList.update k ?d' r) = (map_of r)(k \<mapsto> ?d')"
      by (simp add: update_conv')
    moreover have "\<forall>w. py_get ?d' w = (if key_eq v w then Some (cnt r k v + 1) else counter r k w)"
      using Some \<open>map_of r k = Some d\<close> by (simp add: cnt_def counter_def py_get_py_set)
    ultimately show ?thesis by blast
  qed
qed

lemma count_value_unhashable: "\<not> hashable v \<Longrightarrow> count_value k v r = Inl TypeError"
  by (simp add: count_value_def Let_def)

lemma cnt_cong: "key_eq v w \<Longrightarrow> cnt r f v = cnt r f w"
  by (simp add: cnt_def counter_def py_get_cong [of v w] split: option.splits)

text \<open>What one step does to the counters and to the fields.\<close>

lemma count_value_step:
  assumes "hashable v"
  shows "\<exists>r'. count_value k v r = Inr r' \<and>
           (\<forall>f w. counter r' f w =
              (if f = k \<and> key_eq v w then Some (cnt r k w + 1) else counter r f w)) \<and>
           (\<forall>f. (map_of r' f = None) = (f \<noteq> k \<and> map_of r f = None))"
proof -
  from count_value_hashable [OF assms, of k r] obtain r' d' where
    1: "count_value k v r = Inr r'" and 2: "map_of r' = (map_of r)(k \<mapsto> d')" and
    3: "\<forall>w. py_get d' w = (if key_eq v w then Some (cnt r k v + 1) else counter r k w)"
    by blast
  have "counter r' f w = (if f = k \<and> key_eq v w then Some (cnt r k w + 1) else counter r f w)"
    for f w
    using 2 3 cnt_cong [of v w r k] by (simp add: counter_def)
  moreover have "(map_of r' f = None) = (f \<noteq> k \<and> map_of r f = None)" for f
    using 2 by simp
  ultimately show ?thesis using 1 by blast
qed

lemma occ_Cons:
  "occ ((k, v) # items) f w = (if k = f \<and> key_eq v w then 1 else 0) + occ items f w"
  by (simp add: occ_def)

lemma count_value_Inr_hashable: "count_value k v r = Inr r' \<Longrightarrow> hashable v"
  using count_value_unhashable [of v k r] by auto

lemma count_value_counter:
  assumes "count_value k v r = Inr r'"
  shows "counter r' f w = (if f = k \<and> key_eq v w then Some (cnt r k w + 1) else counter r f w)"
  using count_value_step [OF count_value_Inr_hashable [OF assms], of k r] assms by auto

lemma count_value_field:
  assumes "count_value k v r = Inr r'"
  shows "(map_of r' f = None) = (f \<noteq> k \<and> map_of r f = None)"
  using count_value_step [OF count_value_Inr_hashable [OF assms], of k r] assms by auto

lemma count_value_cnt:
  assumes "count_value k v r = Inr r'"
  shows "cnt r' f w = cnt r f w + (if k = f \<and> key_eq v w then 1 else 0)"
  using count_value_counter [OF assms, of f w] by (auto simp: cnt_def)

lemma count_items_hashable:
  "\<forall>e\<in>set items. hashable (snd e) \<Longrightarrow> \<exists>r'. count_items items r = Inr r'"
proof (induction items arbitrary: r)
  case Nil
  then show ?case by simp
next
  case (Cons e items)
  obtain k v where e: "e = (k, v)" by (cases e)
  with Cons.prems have h: "hashable v" and hs: "\<forall>e\<in>set items. hashable (snd e)" by auto
  from count_value_hashable [OF h, of k r] obtain r1 where "count_value k v r = Inr r1"
    by blast
  with Cons.IH [OF hs, of r1] e show ?case by simp
qed

lemma count_items_cnt:
  "count_items items r = Inr r' \<Longrightarrow> cnt r' f w = cnt r f w + occ items f w"
proof (induction items arbitrary: r)
  case Nil
  then show ?case by (simp add: occ_def)
next
  case (Cons e items)
  obtain k v where e: "e = (k, v)" by (cases e)
  with Cons.prems obtain r1 where s: "count_value k v r = Inr r1" and i: "count_items items r1 = Inr r'"
    by (auto split: sum.splits)
  from Cons.IH [OF i] count_value_cnt [OF s, of f w] e show ?case by (simp add: occ_Cons)
qed

lemma count_items_field:
  "count_items items r = Inr r' \<Longrightarrow>
   (map_of r' f = None) = (map_of r f = None \<and> f \<notin> fst ` set items)"
proof (induction items arbitrary: r)
  case Nil
  then show ?case by simp
next
  case (Cons e items)
  obtain k v where e: "e = (k, v)" by (cases e)
  with Cons.prems obtain r1 where s: "count_value k v r = Inr r1" and i: "count_items items r1 = Inr r'"
    by (auto split: sum.splits)
  from Cons.IH [OF i] count_value_field [OF s, of f] e show ?case by auto
qed

lemma count_items_positive:
  "count_items items r = Inr r' \<Longrightarrow> \<forall>f w. counter r f w \<noteq> Some 0 \<Longrightarrow> counter r' f w \<noteq> Some 0"
proof (induction items arbitrary: r f w)
  case Nil
  then show ?case by simp
next
  case (Cons e items)
  obtain k v where e: "e = (k, v)" by (cases e)
  with Cons.prems obtain r1 where s: "count_value k v r = Inr r1" and i: "count_items items r1 = Inr r'"
    by (auto split: sum.splits)
  have "\<forall>f w. counter r1 f w \<noteq> Some 0"
    using Cons.prems(2) by (simp add: count_value_counter [OF s])
  from Cons.IH [OF i this] show ?case .
qed

lemma count_items_unhashable:
  "\<exists>e\<in>set items. \<not> hashable (snd e) \<Longrightarrow> count_items items r = Inl TypeError"
proof (induction items arbitrary: r)
  case Nil
  then show ?case by simp
next
  case (Cons e items)
  obtain k v where e: "e = (k, v)" by (cases e)
  show ?case
  proof (cases "hashable v")
    case False
    with e show ?thesis by (simp add: count_value_unhashable)
  next
    case True
    with Cons.prems e have "\<exists>e\<in>set items. \<not> hashable (snd e)" by auto
    from Cons.IH [OF this] have i: "count_items items r' = Inl TypeError" for r' .
    from count_value_hashable [OF True, of k r] obtain r1 where "count_value k v r = Inr r1"
      by blast
    with e i show ?thesis by simp
  qed
qed

lemma count_items_append:
  "count_items (xs @ ys) r =
     (case count_items xs r of Inl e \<Rightarrow> Inl e | Inr r' \<Rightarrow> count_items ys r')"
  by (induction xs arbitrary: r) (auto split: sum.splits)

lemma count_lines_flat: "count_lines ls r = count_items (concat ls) r"
  by (induction ls arbitrary: r) (auto simp: count_items_append split: sum.splits)

lemma count_individuals_flat: "count_individuals data r = count_items (concat (concat data)) r"
  by (induction data arbitrary: r) (auto simp: count_lines_flat count_items_append split: sum.splits)

lemma create_summary_flat: "create_summary data = count_items (concat (concat data)) []"
  by (simp add: create_summary_def count_individuals_flat)

lemma create_summary_hashable:
  "\<forall>e\<in>set (concat (concat data)). hashable (snd e) \<Longrightarrow> \<exists>r. create_summary data = Inr r"
  by (simp add: create_summary_flat count_items_hashable)

lemma counter_create_summary:
  assumes "create_summary data = Inr r"
  shows "counter r f w =
        (if occ (concat (concat data)) f w = 0 then None
         else Some (occ (concat (concat data)) f w))"
proof -
  from assms have i: "count_items (concat (concat data)) [] = Inr r"
    by (simp add: create_summary_flat)
  have p: "counter r f w \<noteq> Some 0"
    by (rule count_items_positive [OF i]) (simp add: counter_def)
  have c: "cnt r f w = occ (concat (concat data)) f w"
    using count_items_cnt [OF i, of f w] by (simp add: cnt_def counter_def)
  from c p show ?thesis by (auto simp: cnt_def split: option.splits)
qed

lemma field_create_summary:
  assumes "create_summary data = Inr r"
  shows "(map_of r f = None) = (f \<notin> fst ` set (concat (concat data)))"
  using count_items_field [of "concat (concat data)" "[]" r f] assms
  by (simp add: create_summary_flat)

lemma create_summary_unhashable:
  "\<exists>e\<in>set (concat (concat data)). \<not> hashable (snd e) \<Longrightarrow> create_summary data = Inl TypeError"
  by (simp only: create_summary_flat count_items_unhashable)


subsection \<open>Lines as dicts, and the order of the items\<close>





lemma occ_mset: "mset xs = mset ys \<Longrightarrow> occ xs f v = occ ys f v"
proof -
  assume "mset xs = mset ys"
  then have "mset (filter (\<lambda>(k, w). k = f \<and> key_eq w v) xs) =
             mset (filter (\<lambda>(k, w). k = f \<and> key_eq w v) ys)"
    by (simp only: mset_filter)
  then show ?thesis unfolding occ_def by (rule mset_eq_length)
qed

lemma mset_concat_concat:
  "mset (concat (concat data)) =
     \<Sum>\<^sub># (image_mset (\<lambda>M. \<Sum>\<^sub># (image_mset mset M)) (mset (map mset data)))"
proof -
  have 1: "mset (concat xss) = \<Sum>\<^sub># (image_mset mset (mset xss))" for xss :: "'x list list"
    by (induction xss) simp_all
  show ?thesis by (induction data) (simp_all add: 1)
qed

subsection \<open>The keys a tally stores\<close>

lemma py_set_keys: "fst ` set (py_set v x d) \<subseteq> insert v (fst ` set d)"
  by (induction d) (force split: if_splits)+

lemma count_value_keys:
  assumes "count_value k v r = Inr r'"
  shows "keys_of r' f \<subseteq> keys_of r f \<union> (if f = k then {v} else {})"
proof -
  from assms have h: "hashable v" by (rule count_value_Inr_hashable)
  let ?d = "case map_of r k of None \<Rightarrow> [] | Some d \<Rightarrow> d"
  let ?d1 = "if py_get ?d v = None then py_set v 0 ?d else ?d"
  let ?d2 = "py_set v ((case py_get ?d1 v of None \<Rightarrow> 0 | Some n \<Rightarrow> n) + 1) ?d1"
  have r': "map_of r' = (map_of r)(k \<mapsto> ?d2)"
  proof (cases "map_of r k")
    case None
    with assms h have "r' = AList.update k ?d2 (AList.update k [] r)"
      by (simp add: count_value_def not_key_iff update_conv')
    then show ?thesis by (simp add: update_conv')
  next
    case (Some d)
    with assms h have "r' = AList.update k ?d2 r"
      by (simp add: count_value_def not_key_iff Let_def)
    then show ?thesis by (simp add: update_conv')
  qed
  have "fst ` set ?d1 \<subseteq> insert v (fst ` set ?d)"
    using py_set_keys [of v 0 ?d] by auto
  with py_set_keys [of v _ ?d1] have "fst ` set ?d2 \<subseteq> insert v (fst ` set ?d)" by blast
  moreover have "fst ` set ?d = keys_of r k" by (simp add: keys_of_def split: option.splits)
  ultimately show ?thesis using r' by (auto simp: keys_of_def)
qed

lemma count_items_keys:
  "count_items items r = Inr r' \<Longrightarrow> keys_of r' f \<subseteq> keys_of r f \<union> {v. (f, v) \<in> set items}"
proof (induction items arbitrary: r)
  case Nil
  then show ?case by simp
next
  case (Cons e items)
  obtain k v where e: "e = (k, v)" by (cases e)
  with Cons.prems obtain r1 where s: "count_value k v r = Inr r1" and i: "count_items items r1 = Inr r'"
    by (auto split: sum.splits)
  from Cons.IH [OF i] count_value_keys [OF s, of f] e show ?case by (auto split: if_splits)
qed

lemma keys_create_summary:
  assumes "create_summary data = Inr r" and "map_of r f = Some d" and "k \<in> fst ` set d"
  shows "(f, k) \<in> set (concat (concat data))"
proof -
  from assms(1) have "count_items (concat (concat data)) [] = Inr r"
    by (simp add: create_summary_flat)
  from count_items_keys [OF this, of f] assms(2,3) show ?thesis
    by (auto simp: keys_of_def)
qed

lemma py_get_map_of:
  "\<forall>k\<in>fst ` set d. key_eq k v \<longrightarrow> k = v \<Longrightarrow> py_get d v = map_of d v"
  by (induction d) auto


subsection \<open>The counts\<close>




subsection \<open>Order of the input\<close>

text \<open>
  C9, as the claim states it, fails. The two lines \<^verbatim>\<open>{"a": 1}\<close> and \<^verbatim>\<open>{"a": true}\<close> of one
  individual, in their two orders: the tallies are \<^verbatim>\<open>{"a": {1: 2}}\<close> and
  \<^verbatim>\<open>{"a": {True: 2}}\<close>, since the key that is kept is the one met first; as mappings from
  the stored values to counts they differ.
\<close>

theorem stored_key_order_counterexample:
  "mset (map mset [[[(''a'', JBool True)], [(''a'', JInt 1)]]]) =
     mset (map mset [[[(''a'', JInt 1)], [(''a'', JBool True)]]]) \<and>
   create_summary [[[(''a'', JInt 1)], [(''a'', JBool True)]]] = Inr [(''a'', [(JInt 1, 2)])] \<and>
   create_summary [[[(''a'', JBool True)], [(''a'', JInt 1)]]] = Inr [(''a'', [(JBool True, 2)])] \<and>
   as_mapping [(''a'', [(JBool True, 2)])] \<noteq> as_mapping [(''a'', [(JInt 1, 2)])]"
proof -
  have 1: "mset (map mset [[[(''a'', JBool True)], [(''a'', JInt 1)]]]) =
     mset (map mset [[[(''a'', JInt 1)], [(''a'', JBool True)]]])"
    by (simp add: add_mset_commute)
  have 2: "create_summary [[[(''a'', JInt 1)], [(''a'', JBool True)]]] = Inr [(''a'', [(JInt 1, 2)])]"
    by (simp add: create_summary_def count_value_def key_eq_def)
  have 3: "create_summary [[[(''a'', JBool True)], [(''a'', JInt 1)]]] = Inr [(''a'', [(JBool True, 2)])]"
    by (simp add: create_summary_def count_value_def key_eq_def)
  have "as_mapping [(''a'', [(JBool True, 2)])] ''a'' \<noteq> as_mapping [(''a'', [(JInt 1, 2)])] ''a''"
  proof
    assume "as_mapping [(''a'', [(JBool True, 2)])] ''a'' = as_mapping [(''a'', [(JInt 1, 2)])] ''a''"
    then have "map_of [(JBool True, 2::nat)] = map_of [(JInt 1, 2)]" by (simp add: as_mapping_def)
    then have "map_of [(JBool True, 2::nat)] (JInt 1) = map_of [(JInt 1, 2)] (JInt 1)" by (rule arg_cong)
    then show False by simp
  qed
  then have 4: "as_mapping [(''a'', [(JBool True, 2)])] \<noteq> as_mapping [(''a'', [(JInt 1, 2)])]"
    by auto
  from 1 2 3 4 show ?thesis by blast
qed

lemma unambiguousD:
  "unambiguous items \<Longrightarrow> (f, v) \<in> set items \<Longrightarrow> (f, w) \<in> set items \<Longrightarrow> key_eq v w \<Longrightarrow> v = w"
  unfolding unambiguous_def by fastforce

text \<open>
  C9, amended. An input \<open>data'\<close> that is \<open>data\<close> with the individuals permuted and the
  lines of each individual permuted (the multiset of the individuals, each taken as the
  multiset of its lines, is the same) has the same outcome: the same exception, or tallies
  that are equal as Python compares dicts (the same fields, and for every value the same
  counter by Python's lookup). When no field of the input has two different values that are
  equal by \<^verbatim>\<open>==\<close>, the tallies are equal as mappings from the stored values to counts too.
\<close>

theorem create_summary_permutation:
  assumes "mset (map mset data') = mset (map mset data)"
  shows "map_sum id py_mapping (create_summary data') = map_sum id py_mapping (create_summary data) \<and>
         (unambiguous (concat (concat data)) \<longrightarrow>
            map_sum id as_mapping (create_summary data') = map_sum id as_mapping (create_summary data))"
proof -
  let ?items = "concat (concat data)" and ?items' = "concat (concat data')"
  have items: "mset ?items' = mset ?items"
    by (simp only: mset_concat_concat assms)
  then have sets: "set ?items' = set ?items" by (metis set_mset_mset)
  show ?thesis
  proof (cases "\<forall>e\<in>set ?items. hashable (snd e)")
    case False
    then have ex: "\<exists>e\<in>set ?items. \<not> hashable (snd e)" by blast
    then have "create_summary data = Inl TypeError" by (rule create_summary_unhashable)
    moreover from ex have "\<exists>e\<in>set ?items'. \<not> hashable (snd e)" by (simp only: sets)
    then have "create_summary data' = Inl TypeError" by (rule create_summary_unhashable)
    ultimately show ?thesis by simp
  next
    case True
    from create_summary_hashable [OF True] obtain r where r: "create_summary data = Inr r" by blast
    from True have "\<forall>e\<in>set ?items'. hashable (snd e)" by (simp only: sets)
    from create_summary_hashable [OF this] obtain r' where r': "create_summary data' = Inr r'"
      by blast
    have cs: "counter r' f v = counter r f v" for f v
      by (simp add: counter_create_summary [OF r] counter_create_summary [OF r'] occ_mset [OF items])
    have fs: "(map_of r' f = None) = (map_of r f = None)" for f
      by (simp only: field_create_summary [OF r] field_create_summary [OF r'] sets)
    have py: "py_mapping r' f = py_mapping r f" for f
    proof (cases "map_of r f")
      case None
      with fs [of f] show ?thesis by (simp add: py_mapping_def)
    next
      case (Some d)
      with fs [of f] obtain d' where d': "map_of r' f = Some d'" by auto
      have "py_get d' v = py_get d v" for v
        using cs [of f v] Some d' by (simp add: counter_def)
      then have "py_get d' = py_get d" by (rule ext)
      with Some d' show ?thesis by (simp add: py_mapping_def)
    qed
    have id: "as_mapping r' f = as_mapping r f" if u: "unambiguous ?items" for f
    proof (cases "map_of r f")
      case None
      with fs [of f] show ?thesis by (simp add: as_mapping_def)
    next
      case (Some d)
      with fs [of f] obtain d' where d': "map_of r' f = Some d'" by auto
      have pg: "py_get d' v = py_get d v" for v
        using cs [of f v] Some d' by (simp add: counter_def)
      have kd: "(f, k) \<in> set ?items" if "k \<in> fst ` set d" for k
        using keys_create_summary [OF r Some that] .
      have kd': "(f, k) \<in> set ?items" if "k \<in> fst ` set d'" for k
        using keys_create_summary [OF r' d' that] by (simp only: sets)
      have exact: "py_get e v = map_of e v"
        if "\<forall>k\<in>fst ` set e. (f, k) \<in> set ?items" and "(f, v) \<in> set ?items" for e v
      proof (rule py_get_map_of, intro ballI impI)
        fix k assume "k \<in> fst ` set e" and ke: "key_eq k v"
        with that have "(f, k) \<in> set ?items" by blast
        from unambiguousD [OF u this that(2) ke] show "k = v" .
      qed
      have "map_of d' v = map_of d v" for v
      proof (cases "(f, v) \<in> set ?items")
        case True
        with exact [of d v] exact [of d' v] kd kd' pg [of v] show ?thesis by simp
      next
        case False
        with kd kd' have "v \<notin> fst ` set d" "v \<notin> fst ` set d'" by blast+
        then have "map_of d v = None" "map_of d' v = None" by (simp_all only: map_of_eq_None_iff not_False_eq_True)
        then show ?thesis by simp
      qed
      then have "map_of d' = map_of d" by (rule ext)
      with Some d' show ?thesis by (simp add: as_mapping_def)
    qed
    from py have "py_mapping r' = py_mapping r" by (rule ext)
    moreover have "as_mapping r' = as_mapping r" if "unambiguous ?items"
      using id [OF that] by (rule ext)
    ultimately show ?thesis using r r' by simp
  qed
qed

text \<open>
  Two orders of one input: the dicts built differ in the order of their keys and in the
  key kept for \<^verbatim>\<open>1\<close> and \<^verbatim>\<open>true\<close>, and are equal as Python compares them. Two orders of an
  input of strings: the tallies are equal as mappings from the stored values too.
\<close>

theorem create_summary_permutation_witness:
  "mset (map mset [[[(''sex'', JStr ''M'')]], [[(''n'', JBool True)], [(''sex'', JStr ''F''), (''n'', JInt 1)]]]) =
   mset (map mset [[[(''sex'', JStr ''F''), (''n'', JInt 1)], [(''n'', JBool True)]], [[(''sex'', JStr ''M'')]]]) \<and>
   create_summary [[[(''sex'', JStr ''F''), (''n'', JInt 1)], [(''n'', JBool True)]], [[(''sex'', JStr ''M'')]]] =
     Inr [(''sex'', [(JStr ''F'', 1), (JStr ''M'', 1)]), (''n'', [(JInt 1, 2)])] \<and>
   create_summary [[[(''sex'', JStr ''M'')]], [[(''n'', JBool True)], [(''sex'', JStr ''F''), (''n'', JInt 1)]]] =
     Inr [(''sex'', [(JStr ''M'', 1), (JStr ''F'', 1)]), (''n'', [(JBool True, 2)])] \<and>
   py_mapping [(''sex'', [(JStr ''M'', 1), (JStr ''F'', 1)]), (''n'', [(JBool True, 2)])] =
     py_mapping [(''sex'', [(JStr ''F'', 1), (JStr ''M'', 1)]), (''n'', [(JInt 1, 2)])] \<and>
   unambiguous (concat (concat [[[(''sex'', JStr ''F'')], [(''sex'', JStr ''F'')]], [[(''sex'', JStr ''M'')]]])) \<and>
   as_mapping [(''sex'', [(JStr ''M'', 1), (JStr ''F'', 2)])] =
     as_mapping [(''sex'', [(JStr ''F'', 2), (JStr ''M'', 1)])]"
proof -
  let ?a = "[[[(''sex'', JStr ''M'')]], [[(''n'', JBool True)], [(''sex'', JStr ''F''), (''n'', JInt 1)]]]"
  let ?b = "[[[(''sex'', JStr ''F''), (''n'', JInt 1)], [(''n'', JBool True)]], [[(''sex'', JStr ''M'')]]]"
  let ?c = "[[[(''sex'', JStr ''M'')]], [[(''sex'', JStr ''F'')], [(''sex'', JStr ''F'')]]]"
  let ?d = "[[[(''sex'', JStr ''F'')], [(''sex'', JStr ''F'')]], [[(''sex'', JStr ''M'')]]]"
  have h: "mset (map mset ?a) = mset (map mset ?b)" by (simp add: add_mset_commute)
  have a: "create_summary ?a =
     Inr [(''sex'', [(JStr ''M'', 1), (JStr ''F'', 1)]), (''n'', [(JBool True, 2)])]"
    by (simp add: create_summary_def count_value_def key_eq_def)
  have b: "create_summary ?b =
     Inr [(''sex'', [(JStr ''F'', 1), (JStr ''M'', 1)]), (''n'', [(JInt 1, 2)])]"
    by (simp add: create_summary_def count_value_def key_eq_def)
  from create_summary_permutation [OF h]
  have "map_sum id py_mapping (create_summary ?a) = map_sum id py_mapping (create_summary ?b)"
    by (rule conjunct1)
  then have py: "py_mapping [(''sex'', [(JStr ''M'', 1), (JStr ''F'', 1)]), (''n'', [(JBool True, 2)])] =
     py_mapping [(''sex'', [(JStr ''F'', 1), (JStr ''M'', 1)]), (''n'', [(JInt 1, 2)])]"
    unfolding a b by simp
  have g: "mset (map mset ?c) = mset (map mset ?d)" by (simp add: add_mset_commute)
  have u: "unambiguous (concat (concat ?d))" by (simp add: unambiguous_def key_eq_def)
  have c: "create_summary ?c = Inr [(''sex'', [(JStr ''M'', 1), (JStr ''F'', 2)])]"
    by (simp add: create_summary_def count_value_def key_eq_def)
  have d: "create_summary ?d = Inr [(''sex'', [(JStr ''F'', 2), (JStr ''M'', 1)])]"
    by (simp add: create_summary_def count_value_def key_eq_def)
  from create_summary_permutation [OF g] u
  have "map_sum id as_mapping (create_summary ?c) = map_sum id as_mapping (create_summary ?d)"
    by blast
  then have am: "as_mapping [(''sex'', [(JStr ''M'', 1), (JStr ''F'', 2)])] =
     as_mapping [(''sex'', [(JStr ''F'', 2), (JStr ''M'', 1)])]"
    unfolding c d by simp
  from h a b py u am show ?thesis by blast
qed

end
